theory Spec2Isabelle
  imports Main "HOL-Library.Word" "HOL-Library.Multiset" "HOL-Library.Sublist"
begin

section \<open>The file-name pattern\<close>

text \<open>
  \<^verbatim>\<open>FASTQ_RE\<close> is a Python regular expression compiled with \<^verbatim>\<open>re.IGNORECASE\<close> and
  applied with \<^verbatim>\<open>match\<close>.  It is embedded as a value of a small regular-expression
  datatype together with a backtracking matcher that lists the successful ways of
  matching in the priority order of Python's engine (greedy repetition first, the
  optional part tried before its omission), so that the match Python reports is the head
  of the list.  File names are \<^typ>\<open>string\<close>s: the development covers the names whose
  characters are code points below 256, where \<^verbatim>\<open>\d\<close> is the ten ASCII digits and case
  folding touches the ASCII letters of the pattern only.  Names with other characters
  are not represented.
\<close>

datatype gname = Prefix | Sample | Lane | Read | Ext

text \<open>Case folding of the ASCII letters; the pattern has no other letter.\<close>

definition lower :: "char \<Rightarrow> char" where
  "lower c =
     (case map_of (zip ''ABCDEFGHIJKLMNOPQRSTUVWXYZ'' ''abcdefghijklmnopqrstuvwxyz'') c of
        Some d \<Rightarrow> d
      | None \<Rightarrow> c)"

definition newline :: char where
  "newline = CHR 0x0A"

datatype cls = Dot | Lit char | InSet "char list" | NotSet "char list" | Digit

fun cls_match :: "cls \<Rightarrow> char \<Rightarrow> bool" where
  "cls_match Dot c = (c \<noteq> newline)"
| "cls_match (Lit a) c = (lower c = lower a)"
| "cls_match (InSet as) c = (lower c \<in> set (map lower as))"
| "cls_match (NotSet as) c = (lower c \<notin> set (map lower as))"
| "cls_match Digit c = (c \<in> set ''0123456789'')"

datatype regex =
    Eps
  | Bol
  | Eol
  | One cls
  | Plus cls
  | Opt regex
  | Cat regex regex
  | Group gname regex

type_synonym caps = "gname \<Rightarrow> string option"

text \<open>The remainders left by \<^verbatim>\<open>x+\<close> for a one-character \<^verbatim>\<open>x\<close>, the longest match first.\<close>

fun plus_splits :: "(char \<Rightarrow> bool) \<Rightarrow> string \<Rightarrow> string list" where
  "plus_splits p [] = []"
| "plus_splits p (x # xs) = (if p x then plus_splits p xs @ [xs] else [])"

text \<open>
  \<open>run inp r (s, c)\<close>: the states reachable by matching \<open>r\<close> at the remainder \<open>s\<close> of the
  input \<open>inp\<close> with the groups \<open>c\<close> captured so far.  \<^verbatim>\<open>^\<close> holds at offset 0 only and
  \<^verbatim>\<open>$\<close> at the end of the input or before a newline that ends it (no \<^verbatim>\<open>re.MULTILINE\<close>).
\<close>

fun run :: "string \<Rightarrow> regex \<Rightarrow> string \<times> caps \<Rightarrow> (string \<times> caps) list" where
  "run inp Eps st = [st]"
| "run inp Bol (s, c) = (if length s = length inp then [(s, c)] else [])"
| "run inp Eol (s, c) = (if s = [] \<or> s = [newline] then [(s, c)] else [])"
| "run inp (One k) (s, c) =
     (case s of [] \<Rightarrow> [] | x # xs \<Rightarrow> if cls_match k x then [(xs, c)] else [])"
| "run inp (Plus k) (s, c) = map (\<lambda>r. (r, c)) (plus_splits (cls_match k) s)"
| "run inp (Opt r) st = run inp r st @ [st]"
| "run inp (Cat a b) st = concat (map (run inp b) (run inp a st))"
| "run inp (Group g r) (s, c) =
     map (\<lambda>(s', c'). (s', c'(g \<mapsto> take (length s - length s') s))) (run inp r (s, c))"

fun lits :: "string \<Rightarrow> regex" where
  "lits [] = Eps"
| "lits (a # as) = Cat (One (Lit a)) (lits as)"

definition re_match :: "regex \<Rightarrow> string \<Rightarrow> caps option" where
  "re_match r s = (case run s r (s, Map.empty) of [] \<Rightarrow> None | (_, c) # _ \<Rightarrow> Some c)"

definition ext_re :: regex where
  "ext_re = Cat (lits ''.'') (Cat (Cat (lits ''f'') (Cat (Opt (lits ''ast'')) (lits ''q'')))
              (Opt (lits ''.gz'')))"

definition FASTQ_RE :: regex where
  "FASTQ_RE =
     Cat Bol (Cat (Group Prefix (Plus Dot)) (Cat (lits ''_'')
       (Cat (Group Sample (Plus (NotSet ''_''))) (Cat (lits ''_L'')
       (Cat (Group Lane (Plus Digit)) (Cat (lits ''_R'')
       (Cat (Group Read (One (InSet ''12''))) (Cat (Group Ext ext_re) Eol))))))))"

definition group :: "caps \<Rightarrow> gname \<Rightarrow> string" where
  "group m g = (case m g of Some s \<Rightarrow> s | None \<Rightarrow> [])"


section \<open>Paths and the file system\<close>

text \<open>
  A path is the list of its components below the root, as the operating system resolves
  it (relative paths are taken against the working directory; no symbolic links).  The
  file system maps a path to a regular file with its bytes or to a directory; the root
  always exists.
\<close>

type_synonym path = "string list"
type_synonym byte = "8 word"

datatype node = File "byte list" | Dir

type_synonym fs = "path \<Rightarrow> node option"

datatype error =
    FileNotFoundError
  | FileExistsError
  | IsADirectoryError
  | NotADirectoryError
  | ShutilError
  | DirectoryMoveUnsupported

text \<open>
  \<^verbatim>\<open>p / name\<close> for a single name, as the operating system resolves the result when \<open>p\<close>
  is an existing directory: \<^verbatim>\<open>pathlib\<close> drops a \<^verbatim>\<open>.\<close> component, and \<^verbatim>\<open>..\<close> leads to the
  parent of \<open>p\<close> (the root is its own parent).
\<close>

definition joinpath :: "path \<Rightarrow> string \<Rightarrow> path" where
  "joinpath p n = (if n = ''.'' then p else if n = ''..'' then butlast p else p @ [n])"

definition parent :: "path \<Rightarrow> path" where
  "parent p = butlast p"

text \<open>\<^verbatim>\<open>Path.parents\<close>: the proper ancestors, the nearest first.\<close>

definition parents :: "path \<Rightarrow> path list" where
  "parents p = rev (butlast (prefixes p))"

definition is_dir :: "fs \<Rightarrow> path \<Rightarrow> bool" where
  "is_dir s p = (p = [] \<or> s p = Some Dir)"

text \<open>The error of an operation below \<open>p\<close> when \<open>p\<close> is not a directory.\<close>

definition not_dir_error :: "fs \<Rightarrow> path \<Rightarrow> error" where
  "not_dir_error s p = (case s p of Some (File b) \<Rightarrow> NotADirectoryError | _ \<Rightarrow> FileNotFoundError)"

text \<open>
  \<^verbatim>\<open>Path.mkdir(parents=True, exist_ok=True)\<close>: a regular file at \<open>p\<close> raises
  \<^verbatim>\<open>FileExistsError\<close>, a regular file at an ancestor \<^verbatim>\<open>NotADirectoryError\<close>; missing
  ancestors are created.
\<close>

fun mkdir_parents :: "path \<Rightarrow> fs \<Rightarrow> error + fs" where
  "mkdir_parents p s =
     (if p = [] then Inr s
      else case s p of
        Some Dir \<Rightarrow> Inr s
      | Some (File b) \<Rightarrow> Inl FileExistsError
      | None \<Rightarrow>
          (case mkdir_parents (butlast p) s of
             Inl e \<Rightarrow> Inl NotADirectoryError
           | Inr s' \<Rightarrow> Inr (s'(p \<mapsto> Dir))))"

declare mkdir_parents.simps [simp del]

text \<open>\<^verbatim>\<open>open("wb")\<close>: creates the file or truncates it.\<close>

definition open_wb :: "path \<Rightarrow> fs \<Rightarrow> error + fs" where
  "open_wb p s =
     (case s p of
        Some Dir \<Rightarrow> Inl IsADirectoryError
      | _ \<Rightarrow>
          if is_dir s (parent p) then Inr (s(p \<mapsto> File []))
          else Inl (not_dir_error s (parent p)))"

text \<open>\<^verbatim>\<open>open("rb")\<close> and reading to the end.\<close>

definition read_file :: "path \<Rightarrow> fs \<Rightarrow> error + byte list" where
  "read_file p s =
     (case s p of
        None \<Rightarrow> Inl FileNotFoundError
      | Some Dir \<Rightarrow> Inl IsADirectoryError
      | Some (File b) \<Rightarrow> Inr b)"

text \<open>Closing the handle opened on \<open>p\<close> after \<open>b\<close> was written to it.\<close>

definition close_written :: "path \<Rightarrow> byte list \<Rightarrow> fs \<Rightarrow> fs" where
  "close_written p b s = s(p \<mapsto> File b)"

definition unlink :: "path \<Rightarrow> fs \<Rightarrow> error + fs" where
  "unlink p s =
     (case s p of
        None \<Rightarrow> Inl FileNotFoundError
      | Some Dir \<Rightarrow> Inl IsADirectoryError
      | Some (File b) \<Rightarrow> Inr (s(p := None)))"

text \<open>
  \<^verbatim>\<open>os.rename\<close> of a regular file (the copy-and-unlink fallback of \<^verbatim>\<open>shutil.move\<close> has
  the same effect): an existing regular file at the target is replaced.  Renaming a
  directory is outside the model and reported as an error of its own.
\<close>

definition os_rename :: "path \<Rightarrow> path \<Rightarrow> fs \<Rightarrow> error + fs" where
  "os_rename src dst s =
     (case s src of
        None \<Rightarrow> Inl FileNotFoundError
      | Some Dir \<Rightarrow> Inl DirectoryMoveUnsupported
      | Some (File b) \<Rightarrow>
          (case s dst of
             Some Dir \<Rightarrow> Inl IsADirectoryError
           | _ \<Rightarrow>
               if \<not> is_dir s (parent dst) then Inl (not_dir_error s (parent dst))
               else if src = dst then Inr s
               else Inr ((s(dst \<mapsto> File b))(src := None))))"

text \<open>
  \<^verbatim>\<open>shutil.move(src, dst)\<close>: into \<open>dst\<close> when \<open>dst\<close> is an existing directory (an
  error when the name is taken there), onto \<open>dst\<close> otherwise.
\<close>

definition shutil_move :: "path \<Rightarrow> path \<Rightarrow> fs \<Rightarrow> error + fs" where
  "shutil_move src dst s =
     (if s dst = Some Dir then
        (if src = dst then os_rename src dst s
         else if src = [] then Inl ShutilError
         else if s (dst @ [last src]) \<noteq> None then Inl ShutilError
         else os_rename src (dst @ [last src]) s)
      else os_rename src dst s)"

section \<open>Scanner\<close>

record FastqEntry =
  path :: path
  lane :: int

text \<open>\<^verbatim>\<open>int(...)\<close> on a string of decimal digits.\<close>

definition digit_val :: "char \<Rightarrow> int" where
  "digit_val d = int (of_char d) - 48"

definition lane_int :: "string \<Rightarrow> int" where
  "lane_int ds = foldl (\<lambda>n d. 10 * n + digit_val d) 0 ds"

text \<open>
  \<open>walk\<close> is what \<^verbatim>\<open>os.walk\<close> yields: for each directory its resolved path and the names
  of its non-directory entries.
\<close>

definition emit :: "path \<Rightarrow> string \<Rightarrow> (string \<times> string \<times> string \<times> FastqEntry) list" where
  "emit dirpath filename =
     (case re_match FASTQ_RE filename of
        None \<Rightarrow> []
      | Some m \<Rightarrow>
          [(group m Sample, group m Read, group m Ext,
            \<lparr>path = joinpath dirpath filename, lane = lane_int (group m Lane)\<rparr>)])"

definition find_fastqs ::
  "(path \<times> string list) list \<Rightarrow> path option \<Rightarrow> (string \<times> string \<times> string \<times> FastqEntry) list" where
  "find_fastqs walk exclude =
     concat (map (\<lambda>(dirpath, filenames).
       if (case exclude of None \<Rightarrow> False | Some x \<Rightarrow> x \<in> set (parents dirpath)) then []
       else concat (map (emit dirpath) filenames)) walk)"

section \<open>Consolidator\<close>

text \<open>
  The loop of \<^verbatim>\<open>concatenate\<close>: each source is opened and copied to the destination
  handle in turn; \<open>acc\<close> is what the handle has been given so far.  The handle is
  buffered and flushed when the \<^verbatim>\<open>with\<close> block closes it, so the file system \<open>s\<close> the
  sources are read from holds the destination as the empty file (exact while the data
  fits the buffer; sources differ from the destination in every call \<open>main\<close> makes).
\<close>

fun copy_all :: "FastqEntry list \<Rightarrow> byte list \<Rightarrow> fs \<Rightarrow> error + byte list" where
  "copy_all [] acc s = Inr acc"
| "copy_all (e # es) acc s =
     (case read_file (path e) s of
        Inl err \<Rightarrow> Inl err
      | Inr b \<Rightarrow> copy_all es (acc @ b) s)"

definition concatenate :: "FastqEntry list \<Rightarrow> path \<Rightarrow> fs \<Rightarrow> error + fs" where
  "concatenate files destination s =
     (case mkdir_parents (parent destination) s of
        Inl err \<Rightarrow> Inl err
      | Inr s1 \<Rightarrow>
          (case open_wb destination s1 of
             Inl err \<Rightarrow> Inl err
           | Inr s2 \<Rightarrow>
               (case copy_all (sort_key lane files) [] s2 of
                  Inl err \<Rightarrow> Inl err
                | Inr b \<Rightarrow> Inr (close_written destination b s2))))"

fun unlink_all :: "FastqEntry list \<Rightarrow> fs \<Rightarrow> error + fs" where
  "unlink_all [] s = Inr s"
| "unlink_all (e # es) s =
     (case unlink (path e) s of Inl err \<Rightarrow> Inl err | Inr s' \<Rightarrow> unlink_all es s')"

definition relocate :: "FastqEntry list \<Rightarrow> path \<Rightarrow> fs \<Rightarrow> error + fs" where
  "relocate entries destination s =
     (case mkdir_parents (parent destination) s of
        Inl err \<Rightarrow> Inl err
      | Inr s1 \<Rightarrow>
          (case entries of
             [e] \<Rightarrow> shutil_move (path e) destination s1
           | _ \<Rightarrow>
               (case concatenate entries destination s1 of
                  Inl err \<Rightarrow> Inl err
                | Inr s2 \<Rightarrow> unlink_all entries s2)))"

section \<open>Grouper and main\<close>

type_synonym group_key = "string \<times> string \<times> string"

text \<open>The \<^verbatim>\<open>defaultdict(list)\<close>, in insertion order.\<close>

fun add_entry ::
  "group_key \<Rightarrow> FastqEntry \<Rightarrow> (group_key \<times> FastqEntry list) list \<Rightarrow> (group_key \<times> FastqEntry list) list" where
  "add_entry k e [] = [(k, [e])]"
| "add_entry k e ((k', es) # g) =
     (if k' = k then (k', es @ [e]) # g else (k', es) # add_entry k e g)"

definition build_groups ::
  "(string \<times> string \<times> string \<times> FastqEntry) list \<Rightarrow> (group_key \<times> FastqEntry list) list" where
  "build_groups ems = foldl (\<lambda>g (sample, read, ext, e). add_entry (sample, read, ext) e g) [] ems"

definition destination :: "path \<Rightarrow> group_key \<Rightarrow> path" where
  "destination outdir k =
     (case k of (sample, read, ext) \<Rightarrow>
        joinpath (joinpath outdir sample) (sample @ ''_R'' @ read @ ext))"

fun relocate_groups :: "path \<Rightarrow> (group_key \<times> FastqEntry list) list \<Rightarrow> fs \<Rightarrow> error + fs" where
  "relocate_groups outdir [] s = Inr s"
| "relocate_groups outdir ((k, entries) # g) s =
     (case relocate entries (destination outdir k) s of
        Inl err \<Rightarrow> Inl err
      | Inr s' \<Rightarrow> relocate_groups outdir g s')"

text \<open>
  The result of a run: the exit code with the lines written to the error stream and the
  file system left behind, or the exception that ended it.
\<close>

datatype outcome = Exit int "string list" fs | Raised error

definition parse_args :: "string option \<Rightarrow> string option \<Rightarrow> string option" where
  "parse_args flag env_outdir = (case flag of Some v \<Rightarrow> Some v | None \<Rightarrow> env_outdir)"

definition msg_no_outdir :: string where
  "msg_no_outdir = ''Error: OUTDIR is not set and --outdir was not provided.''"

definition msg_no_match :: string where
  "msg_no_match = ''No FASTQ files matched the expected pattern.''"

text \<open>
  \<open>resolve\<close> stands for \<^verbatim>\<open>Path(...).expanduser().resolve()\<close> and \<open>os_walk\<close> for
  \<^verbatim>\<open>os.walk(Path("."))\<close> on the file system of the moment.
\<close>

definition main ::
  "string option \<Rightarrow> string option \<Rightarrow> (string \<Rightarrow> path) \<Rightarrow> (fs \<Rightarrow> (path \<times> string list) list) \<Rightarrow> fs \<Rightarrow> outcome" where
  "main flag env_outdir resolve os_walk s =
     (case parse_args flag env_outdir of
        None \<Rightarrow> Exit 1 [msg_no_outdir] s
      | Some a \<Rightarrow>
          if a = [] then Exit 1 [msg_no_outdir] s
          else
            (let outdir = resolve a in
             case mkdir_parents outdir s of
               Inl err \<Rightarrow> Raised err
             | Inr s1 \<Rightarrow>
                 (let groups = build_groups (find_fastqs (os_walk s1) (Some outdir)) in
                  if groups = [] then Exit 1 [msg_no_match] s1
                  else
                    (case relocate_groups outdir groups s1 of
                       Inl err \<Rightarrow> Raised err
                     | Inr s2 \<Rightarrow> Exit 0 [] s2))))"

section \<open>Notions for the proofs\<close>

text \<open>
  For the proofs: the strings a regular expression without groups and anchors matches,
  the case-insensitive reading of a set of strings, and what the specification calls a
  lane-split name.
\<close>

fun plain :: "regex \<Rightarrow> bool" where
  "plain Eps = True"
| "plain (One k) = True"
| "plain (Plus k) = True"
| "plain (Opt r) = plain r"
| "plain (Cat a b) = (plain a \<and> plain b)"
| "plain _ = False"

fun lang :: "regex \<Rightarrow> string set" where
  "lang Eps = {[]}"
| "lang (One k) = {[x] | x. cls_match k x}"
| "lang (Plus k) = {u. u \<noteq> [] \<and> (\<forall>x\<in>set u. cls_match k x)}"
| "lang (Opt r) = insert [] (lang r)"
| "lang (Cat a b) = {u @ v | u v. u \<in> lang a \<and> v \<in> lang b}"
| "lang _ = {}"

definition ci :: "string set \<Rightarrow> string set" where
  "ci A = {w. map lower w \<in> A}"

definition catS :: "string set \<Rightarrow> string set \<Rightarrow> string set" where
  "catS A B = {a @ b | a b. a \<in> A \<and> b \<in> B}"

definition exts :: "string set" where
  "exts = {''.fastq'', ''.fq'', ''.fastq.gz'', ''.fq.gz''}"

text \<open>
  The shape of the specification: \<open>f\<close> is \<open>pre\<close> followed by \<^verbatim>\<open>_<sample>_L<digits>_R<1|2><ext>\<close>,
  the letters taken case-insensitively.
\<close>

definition lane_split_name ::
  "string \<Rightarrow> string \<Rightarrow> string \<Rightarrow> string \<Rightarrow> string \<Rightarrow> string \<Rightarrow> bool" where
  "lane_split_name f pre sample digits rd ext \<longleftrightarrow>
     (\<exists>ul ur. f = pre @ ''_'' @ sample @ ul @ digits @ ur @ rd @ ext \<and>
        map lower ul = ''_l'' \<and> map lower ur = ''_r'') \<and>
     sample \<noteq> [] \<and> CHR ''_'' \<notin> set sample \<and>
     digits \<noteq> [] \<and> set digits \<subseteq> set ''0123456789'' \<and>
     (rd = ''1'' \<or> rd = ''2'') \<and>
     map lower ext \<in> exts"

text \<open>The entries emitted under a key, in the order of emission.\<close>

definition entries_of ::
  "group_key \<Rightarrow> (string \<times> string \<times> string \<times> FastqEntry) list \<Rightarrow> FastqEntry list" where
  "entries_of k ems =
     map (\<lambda>(sample, read, ext, e). e) (filter (\<lambda>(sample, read, ext, e). (sample, read, ext) = k) ems)"

text \<open>The bytes of the regular file at a path (none where there is no regular file).\<close>

definition file_bytes :: "fs \<Rightarrow> path \<Rightarrow> byte list" where
  "file_bytes s p = (case s p of Some (File b) \<Rightarrow> b | _ \<Rightarrow> [])"

section \<open>Configuration error\<close>

text \<open>
  C7: when neither the option \<^verbatim>\<open>--outdir\<close> nor the variable \<^verbatim>\<open>OUTDIR\<close> is given, the run
  writes the diagnostic to the error stream, exits with code 1 and leaves the file system
  as it found it, whatever the file system holds.
\<close>

theorem main_no_outdir:
  "main None None resolve os_walk s = Exit 1 [msg_no_outdir] s"
  by (simp add: main_def parse_args_def)

section \<open>No-match error and success\<close>

lemma mkdir_parents_frame:
  "mkdir_parents p s = Inr s1 \<Longrightarrow> s1 q \<noteq> s q \<Longrightarrow> s q = None \<and> s1 q = Some Dir \<and> prefix q p"
proof (induction p s arbitrary: s1 q rule: mkdir_parents.induct)
  case (1 p s)
  show ?case
  proof (cases "p = []")
    case True
    with "1.prems" show ?thesis by (simp add: mkdir_parents.simps)
  next
    case False
    show ?thesis
    proof (cases "s p")
      case None
      have "mkdir_parents p s =
              (case mkdir_parents (butlast p) s of Inl e \<Rightarrow> Inl NotADirectoryError | Inr s' \<Rightarrow> Inr (s'(p \<mapsto> Dir)))"
        using False None by (subst mkdir_parents.simps) simp
      with "1.prems"(1) obtain s' where
        rec: "mkdir_parents (butlast p) s = Inr s'" and s1: "s1 = s'(p \<mapsto> Dir)"
        by (cases "mkdir_parents (butlast p) s") auto
      show ?thesis
      proof (cases "q = p")
        case True
        have "s' p = s p \<or> prefix p (butlast p)"
          using "1.IH"[OF False None rec, of p] by blast
        moreover have "\<not> prefix p (butlast p)"
        proof
          assume "prefix p (butlast p)"
          then have "length p \<le> length (butlast p)" by (rule prefix_length_le)
          then have "length p \<le> length p - 1" by (simp only: length_butlast)
          moreover have "0 < length p" using False by simp
          ultimately show False by arith
        qed
        ultimately show ?thesis using True None s1 by simp
      next
        case neq: False
        then have "s' q \<noteq> s q" using "1.prems"(2) s1 by simp
        then have "s q = None \<and> s' q = Some Dir \<and> prefix q (butlast p)"
          using "1.IH"[OF False None rec] by blast
        moreover have "prefix (butlast p) p" by (rule prefixeq_butlast)
        ultimately have "s q = None \<and> s' q = Some Dir \<and> prefix q p"
          using prefix_order.trans by blast
        then show ?thesis using neq s1 by simp
      qed
    next
      case (Some n)
      have "mkdir_parents p s = (case n of Dir \<Rightarrow> Inr s | File b \<Rightarrow> Inl FileExistsError)"
        using False Some by (subst mkdir_parents.simps) simp
      with "1.prems" show ?thesis
        by (cases n) simp_all
    qed
  qed
qed

lemma add_entry_not_Nil: "add_entry k e g \<noteq> []"
  by (cases g) (auto split: if_splits)

lemma foldl_add_entry_not_Nil:
  "g \<noteq> [] \<Longrightarrow> foldl (\<lambda>g (sample, read, ext, e). add_entry (sample, read, ext) e g) g ems \<noteq> []"
proof (induction ems arbitrary: g)
  case Nil
  then show ?case by simp
next
  case (Cons x ems)
  obtain sample read ext e where x: "x = (sample, read, ext, e)" by (cases x) auto
  have "add_entry (sample, read, ext) e g \<noteq> []" by (rule add_entry_not_Nil)
  then show ?case using Cons.IH x by simp
qed

lemma build_groups_Nil_iff: "build_groups ems = [] \<longleftrightarrow> ems = []"
proof (cases ems)
  case Nil
  then show ?thesis by (simp add: build_groups_def)
next
  case (Cons x xs)
  obtain sample read ext e where x: "x = (sample, read, ext, e)" by (cases x) auto
  have "add_entry (sample, read, ext) e [] \<noteq> []" by (rule add_entry_not_Nil)
  then have "build_groups ems \<noteq> []"
    unfolding build_groups_def Cons x using foldl_add_entry_not_Nil by simp
  then show ?thesis using Cons by simp
qed

text \<open>
  C8, as amended: once the output directory is given and has been created, a scan that
  emits nothing ends the run with the diagnostic on the error stream and exit code 1,
  and the file system differs from the initial one only in that the output root and
  those of its ancestors that were missing are now directories (every changed path
  was absent before, is a directory now and is the output root or above it); a scan
  that emits something, followed by consolidations that all succeed, ends the run with
  exit code 0.
\<close>

theorem main_exit_codes:
  assumes "parse_args flag env_outdir = Some a" and "a \<noteq> []"
    and "mkdir_parents (resolve a) s = Inr s1"
  shows "(find_fastqs (os_walk s1) (Some (resolve a)) = [] \<longrightarrow>
           main flag env_outdir resolve os_walk s = Exit 1 [msg_no_match] s1 \<and>
           (\<forall>q. s1 q \<noteq> s q \<longrightarrow> s q = None \<and> s1 q = Some Dir \<and> prefix q (resolve a))) \<and>
         (find_fastqs (os_walk s1) (Some (resolve a)) \<noteq> [] \<longrightarrow>
           (\<forall>s2. relocate_groups (resolve a)
                   (build_groups (find_fastqs (os_walk s1) (Some (resolve a)))) s1 = Inr s2 \<longrightarrow>
                 main flag env_outdir resolve os_walk s = Exit 0 [] s2))"
proof -
  let ?ems = "find_fastqs (os_walk s1) (Some (resolve a))"
  have m: "main flag env_outdir resolve os_walk s =
        (if build_groups ?ems = [] then Exit 1 [msg_no_match] s1
         else (case relocate_groups (resolve a) (build_groups ?ems) s1 of
                 Inl err \<Rightarrow> Raised err
               | Inr s2 \<Rightarrow> Exit 0 [] s2))"
    using assms by (simp add: main_def Let_def)
  have frame: "\<forall>q. s1 q \<noteq> s q \<longrightarrow> s q = None \<and> s1 q = Some Dir \<and> prefix q (resolve a)"
    using mkdir_parents_frame[OF assms(3)] by blast
  have a: "?ems = [] \<longrightarrow> main flag env_outdir resolve os_walk s = Exit 1 [msg_no_match] s1"
    by (simp add: m build_groups_Nil_iff)
  have b: "?ems \<noteq> [] \<longrightarrow> (\<forall>s2. relocate_groups (resolve a) (build_groups ?ems) s1 = Inr s2 \<longrightarrow>
                 main flag env_outdir resolve os_walk s = Exit 0 [] s2)"
    by (simp add: m build_groups_Nil_iff)
  from a b frame show ?thesis by blast
qed

lemmas ev = re_match_def FASTQ_RE_def ext_re_def group_def lower_def newline_def
  find_fastqs_def emit_def parents_def joinpath_def parent_def is_dir_def
  build_groups_def destination_def relocate_def shutil_move_def os_rename_def
  lane_int_def digit_val_def mkdir_parents.simps

theorem main_exit_codes_witness:
  "main (Some ''out'') None (\<lambda>a. [''w'', a]) (\<lambda>s. [([''w''], [''notes.txt''])])
      (Map.empty([''w''] \<mapsto> Dir))
     = Exit 1 [msg_no_match] ((Map.empty([''w''] \<mapsto> Dir))([''w'', ''out''] \<mapsto> Dir))
   \<and> main (Some ''out'') None (\<lambda>a. [''w'', a]) (\<lambda>s. [([''w''], [''x_A_L1_R1.fq''])])
      ((Map.empty([''w''] \<mapsto> Dir))([''w'', ''x_A_L1_R1.fq''] \<mapsto> File [1, 2]))
     = Exit 0 []
        ((((((Map.empty([''w''] \<mapsto> Dir))([''w'', ''x_A_L1_R1.fq''] \<mapsto> File [1, 2]))
          ([''w'', ''out''] \<mapsto> Dir))([''w'', ''out'', ''A''] \<mapsto> Dir))
          ([''w'', ''out'', ''A'', ''A_R1.fq''] \<mapsto> File [1, 2]))([''w'', ''x_A_L1_R1.fq''] := None))"
proof
  show "main (Some ''out'') None (\<lambda>a. [''w'', a]) (\<lambda>s. [([''w''], [''notes.txt''])])
      (Map.empty([''w''] \<mapsto> Dir))
     = Exit 1 [msg_no_match] ((Map.empty([''w''] \<mapsto> Dir))([''w'', ''out''] \<mapsto> Dir))"
    using main_exit_codes[of "Some ''out''" None "''out''" "\<lambda>a. [''w'', a]"
        "Map.empty([''w''] \<mapsto> Dir)" "(Map.empty([''w''] \<mapsto> Dir))([''w'', ''out''] \<mapsto> Dir)"
        "\<lambda>s. [([''w''], [''notes.txt''])]"]
    by (simp add: ev parse_args_def)
next
  show "main (Some ''out'') None (\<lambda>a. [''w'', a]) (\<lambda>s. [([''w''], [''x_A_L1_R1.fq''])])
      ((Map.empty([''w''] \<mapsto> Dir))([''w'', ''x_A_L1_R1.fq''] \<mapsto> File [1, 2]))
     = Exit 0 []
        ((((((Map.empty([''w''] \<mapsto> Dir))([''w'', ''x_A_L1_R1.fq''] \<mapsto> File [1, 2]))
          ([''w'', ''out''] \<mapsto> Dir))([''w'', ''out'', ''A''] \<mapsto> Dir))
          ([''w'', ''out'', ''A'', ''A_R1.fq''] \<mapsto> File [1, 2]))([''w'', ''x_A_L1_R1.fq''] := None))"
    using main_exit_codes[of "Some ''out''" None "''out''" "\<lambda>a. [''w'', a]"
        "(Map.empty([''w''] \<mapsto> Dir))([''w'', ''x_A_L1_R1.fq''] \<mapsto> File [1, 2])"
        "((Map.empty([''w''] \<mapsto> Dir))([''w'', ''x_A_L1_R1.fq''] \<mapsto> File [1, 2]))([''w'', ''out''] \<mapsto> Dir)"
        "\<lambda>s. [([''w''], [''x_A_L1_R1.fq''])]"]
    by (simp add: ev parse_args_def)
qed

text \<open>
  As stated, C8 allows no change but the creation of the output root itself.  With the
  output root \<^verbatim>\<open>w/a/b\<close> and only \<^verbatim>\<open>w\<close> present, the run that matches nothing also
  creates \<^verbatim>\<open>w/a\<close>, which is not the output root.
\<close>

theorem main_no_match_frame_counterexample:
  "main (Some ''a/b'') None (\<lambda>a. [''w'', ''a'', ''b'']) (\<lambda>s. [([''w''], [''notes.txt''])])
      (Map.empty([''w''] \<mapsto> Dir))
     = Exit 1 [msg_no_match]
         (Map.empty([''w''] \<mapsto> Dir, [''w'', ''a''] \<mapsto> Dir, [''w'', ''a'', ''b''] \<mapsto> Dir))
   \<and> (Map.empty([''w''] \<mapsto> Dir, [''w'', ''a''] \<mapsto> Dir, [''w'', ''a'', ''b''] \<mapsto> Dir)) [''w'', ''a'']
       \<noteq> (Map.empty([''w''] \<mapsto> Dir)) [''w'', ''a'']
   \<and> [''w'', ''a''] \<noteq> [''w'', ''a'', ''b'']"
  by (simp add: main_def parse_args_def ev)

section \<open>Exclusion of the output directory\<close>

text \<open>
  C1 says that no file inside the resolved output directory or below it is emitted by
  the scanner, moved or deleted.  \<^verbatim>\<open>Path.parents\<close> holds the proper ancestors only, so
  the test skips the directories below the output directory but not the output
  directory itself: a matching file directly inside it is emitted (the one under
  \<^verbatim>\<open>out/A\<close> is not), and the run moves it away from its place.
\<close>

theorem find_fastqs_outdir_evaluated:
  "find_fastqs [([''w''], []), ([''w'', ''out''], [''x_A_L001_R1.fq'']),
                ([''w'', ''out'', ''A''], [''y_B_L001_R1.fq''])] (Some [''w'', ''out''])
     = [(''A'', ''1'', ''.fq'', \<lparr>path = [''w'', ''out'', ''x_A_L001_R1.fq''], lane = 1\<rparr>)]
   \<and> main (Some ''out'') None (\<lambda>a. [''w'', a])
        (\<lambda>s. [([''w''], []), ([''w'', ''out''], [''x_A_L001_R1.fq''])])
        (Map.empty([''w''] \<mapsto> Dir, [''w'', ''out''] \<mapsto> Dir,
                   [''w'', ''out'', ''x_A_L001_R1.fq''] \<mapsto> File [7]))
     = Exit 0 []
        ((Map.empty([''w''] \<mapsto> Dir, [''w'', ''out''] \<mapsto> Dir,
                   [''w'', ''out'', ''x_A_L001_R1.fq''] \<mapsto> File [7],
                   [''w'', ''out'', ''A''] \<mapsto> Dir,
                   [''w'', ''out'', ''A'', ''A_R1.fq''] \<mapsto> File [7]))
          ([''w'', ''out'', ''x_A_L001_R1.fq''] := None))"
  by (simp add: main_def parse_args_def ev)

section \<open>The language of the pattern\<close>

lemma plus_splits_iff:
  "r \<in> set (plus_splits p s) \<longleftrightarrow> (\<exists>u. u \<noteq> [] \<and> s = u @ r \<and> (\<forall>x\<in>set u. p x))"
proof (induction s)
  case Nil
  then show ?case by simp
next
  case (Cons a s)
  show ?case
  proof
    assume "r \<in> set (plus_splits p (a # s))"
    then have pa: "p a" and d: "r \<in> set (plus_splits p s) \<or> r = s"
      by (auto split: if_splits)
    from d show "\<exists>u. u \<noteq> [] \<and> a # s = u @ r \<and> (\<forall>x\<in>set u. p x)"
    proof
      assume "r \<in> set (plus_splits p s)"
      with Cons.IH obtain u where "u \<noteq> []" "s = u @ r" "\<forall>x\<in>set u. p x" by blast
      with pa have "a # u \<noteq> [] \<and> a # s = (a # u) @ r \<and> (\<forall>x\<in>set (a # u). p x)" by simp
      then show ?thesis by blast
    next
      assume "r = s"
      with pa have "[a] \<noteq> [] \<and> a # s = [a] @ r \<and> (\<forall>x\<in>set [a]. p x)" by simp
      then show ?thesis by blast
    qed
  next
    assume "\<exists>u. u \<noteq> [] \<and> a # s = u @ r \<and> (\<forall>x\<in>set u. p x)"
    then obtain u where u: "u \<noteq> []" "a # s = u @ r" "\<forall>x\<in>set u. p x" by blast
    then obtain v where v: "u = a # v" by (cases u) auto
    with u have pa: "p a" and s: "s = v @ r" and pv: "\<forall>x\<in>set v. p x" by auto
    show "r \<in> set (plus_splits p (a # s))"
    proof (cases "v = []")
      case True
      with s pa show ?thesis by simp
    next
      case False
      with s pv Cons.IH have "r \<in> set (plus_splits p s)" by blast
      with pa show ?thesis by simp
    qed
  qed
qed

lemma run_plain:
  "plain r \<Longrightarrow> (s', c') \<in> set (run inp r (s, c)) \<longleftrightarrow> c' = c \<and> (\<exists>u\<in>lang r. s = u @ s')"
proof (induction r arbitrary: s c s' c')
  case (One k)
  then show ?case by (cases s) auto
next
  case (Plus k)
  then show ?case by (auto simp: plus_splits_iff)
next
  case (Opt r)
  then show ?case by auto
next
  case (Cat a b)
  then have pa: "plain a" and pb: "plain b" by simp_all
  have "(s', c') \<in> set (run inp (Cat a b) (s, c)) \<longleftrightarrow>
        (\<exists>s1 c1. (s1, c1) \<in> set (run inp a (s, c)) \<and> (s', c') \<in> set (run inp b (s1, c1)))"
    by auto
  also have "\<dots> \<longleftrightarrow> (\<exists>s1. (\<exists>u\<in>lang a. s = u @ s1) \<and> c' = c \<and> (\<exists>v\<in>lang b. s1 = v @ s'))"
    by (simp add: Cat.IH(1)[OF pa] Cat.IH(2)[OF pb])
  also have "\<dots> \<longleftrightarrow> c' = c \<and> (\<exists>w\<in>lang (Cat a b). s = w @ s')"
  proof -
    have "(\<exists>s1. (\<exists>u\<in>lang a. s = u @ s1) \<and> (\<exists>v\<in>lang b. s1 = v @ s')) \<longleftrightarrow>
          (\<exists>u\<in>lang a. \<exists>v\<in>lang b. s = (u @ v) @ s')"
      by (simp only: append_assoc) blast
    also have "\<dots> \<longleftrightarrow> (\<exists>w\<in>lang (Cat a b). s = w @ s')"
      by (simp only: lang.simps) blast
    finally show ?thesis by blast
  qed
  finally show ?case .
next
  case Eps
  then show ?case by (simp add: eq_commute conj_commute)
qed simp_all

lemma run_Group_plain:
  "plain r \<Longrightarrow>
   (s', c') \<in> set (run inp (Group g r) (s, c)) \<longleftrightarrow> (\<exists>u\<in>lang r. s = u @ s' \<and> c' = c(g \<mapsto> u))"
proof
  assume p: "plain r"
  assume "(s', c') \<in> set (run inp (Group g r) (s, c))"
  then obtain c1 where m: "(s', c1) \<in> set (run inp r (s, c))"
    and c': "c' = c1(g \<mapsto> take (length s - length s') s)"
    by auto
  from m obtain u where "c1 = c" "u \<in> lang r" "s = u @ s'"
    using run_plain[OF p] by blast
  with c' show "\<exists>u\<in>lang r. s = u @ s' \<and> c' = c(g \<mapsto> u)"
    by auto
next
  assume p: "plain r"
  assume "\<exists>u\<in>lang r. s = u @ s' \<and> c' = c(g \<mapsto> u)"
  then obtain u where u: "u \<in> lang r" "s = u @ s'" "c' = c(g \<mapsto> u)" by blast
  then have "(s', c) \<in> set (run inp r (s, c))"
    using run_plain[OF p] by blast
  moreover have "c' = c(g \<mapsto> take (length s - length s') s)"
    using u by simp
  ultimately show "(s', c') \<in> set (run inp (Group g r) (s, c))"
    by force
qed

lemma run_Cat_iff:
  "st' \<in> set (run inp (Cat a b) st) \<longleftrightarrow> (\<exists>m\<in>set (run inp a st). st' \<in> set (run inp b m))"
  by auto

lemma lang_lits: "lang (lits w) = {u. map lower u = map lower w}"
proof (induction w)
  case Nil
  then show ?case by simp
next
  case (Cons a w)
  show ?case
  proof (rule set_eqI)
    fix u
    show "u \<in> lang (lits (a # w)) \<longleftrightarrow> u \<in> {u. map lower u = map lower (a # w)}"
    proof (cases u)
      case Nil
      then show ?thesis by simp
    next
      case (Cons x v)
      have "u \<in> lang (lits (a # w)) \<longleftrightarrow> lower x = lower a \<and> v \<in> lang (lits w)"
      proof
        assume "u \<in> lang (lits (a # w))"
        then obtain y v' where "x # v = [y] @ v'" "lower y = lower a" "v' \<in> lang (lits w)"
          by (auto simp: Cons)
        then show "lower x = lower a \<and> v \<in> lang (lits w)" by simp
      next
        assume "lower x = lower a \<and> v \<in> lang (lits w)"
        then have "x # v = [x] @ v \<and> [x] \<in> lang (One (Lit a)) \<and> v \<in> lang (lits w)" by simp
        then show "u \<in> lang (lits (a # w))"
          unfolding Cons lits.simps lang.simps(5) by blast
      qed
      then show ?thesis
        by (simp add: Cons \<open>lang (lits w) = {u. map lower u = map lower w}\<close>)
    qed
  qed
qed

lemma plain_lits: "plain (lits w)"
  by (induction w) simp_all


lemma run_Cat_ex:
  "st' \<in> set (run inp (Cat a k) st) \<longleftrightarrow>
     (\<exists>t c1. (t, c1) \<in> set (run inp a st) \<and> st' \<in> set (run inp k (t, c1)))"
  by auto

lemma run_Cat_Group:
  "plain r \<Longrightarrow> st' \<in> set (run inp (Cat (Group g r) k) (s, c)) \<longleftrightarrow>
     (\<exists>u\<in>lang r. \<exists>t. s = u @ t \<and> st' \<in> set (run inp k (t, c(g \<mapsto> u))))"
proof -
  assume p: "plain r"
  have "st' \<in> set (run inp (Cat (Group g r) k) (s, c)) \<longleftrightarrow>
        (\<exists>t c1. (t, c1) \<in> set (run inp (Group g r) (s, c)) \<and> st' \<in> set (run inp k (t, c1)))"
    by (rule run_Cat_ex)
  also have "\<dots> \<longleftrightarrow> (\<exists>t c1. (\<exists>u\<in>lang r. s = u @ t \<and> c1 = c(g \<mapsto> u)) \<and> st' \<in> set (run inp k (t, c1)))"
    by (simp only: run_Group_plain[OF p])
  also have "\<dots> \<longleftrightarrow> (\<exists>u\<in>lang r. \<exists>t. s = u @ t \<and> st' \<in> set (run inp k (t, c(g \<mapsto> u))))"
    by blast
  finally show ?thesis .
qed

lemma run_Cat_plain:
  "plain r \<Longrightarrow> st' \<in> set (run inp (Cat r k) (s, c)) \<longleftrightarrow>
     (\<exists>u\<in>lang r. \<exists>t. s = u @ t \<and> st' \<in> set (run inp k (t, c)))"
proof -
  assume p: "plain r"
  have "st' \<in> set (run inp (Cat r k) (s, c)) \<longleftrightarrow>
        (\<exists>t c1. (t, c1) \<in> set (run inp r (s, c)) \<and> st' \<in> set (run inp k (t, c1)))"
    by (rule run_Cat_ex)
  also have "\<dots> \<longleftrightarrow> (\<exists>t c1. (c1 = c \<and> (\<exists>u\<in>lang r. s = u @ t)) \<and> st' \<in> set (run inp k (t, c1)))"
    by (simp only: run_plain[OF p])
  also have "\<dots> \<longleftrightarrow> (\<exists>u\<in>lang r. \<exists>t. s = u @ t \<and> st' \<in> set (run inp k (t, c)))"
    by blast
  finally show ?thesis .
qed

lemma run_Cat_Bol:
  "st' \<in> set (run inp (Cat Bol k) (s, c)) \<longleftrightarrow> length s = length inp \<and> st' \<in> set (run inp k (s, c))"
  by simp

lemma run_Group_Eol:
  "plain r \<Longrightarrow> (s', m) \<in> set (run inp (Cat (Group g r) Eol) (s, c)) \<longleftrightarrow>
     (\<exists>u\<in>lang r. s = u @ s' \<and> (s' = [] \<or> s' = [newline]) \<and> m = c(g \<mapsto> u))"
  by (simp only: run_Cat_Group) auto

lemma run_FASTQ_RE:
  "(s', m) \<in> set (run f FASTQ_RE (f, Map.empty)) \<longleftrightarrow>
   (\<exists>u1\<in>lang (Plus Dot). \<exists>u2\<in>lang (lits ''_''). \<exists>u3\<in>lang (Plus (NotSet ''_'')).
    \<exists>u4\<in>lang (lits ''_L''). \<exists>u5\<in>lang (Plus Digit). \<exists>u6\<in>lang (lits ''_R'').
    \<exists>u7\<in>lang (One (InSet ''12'')). \<exists>u8\<in>lang ext_re.
      f = u1 @ u2 @ u3 @ u4 @ u5 @ u6 @ u7 @ u8 @ s' \<and> (s' = [] \<or> s' = [newline]) \<and>
      m = [Prefix \<mapsto> u1, Sample \<mapsto> u3, Lane \<mapsto> u5, Read \<mapsto> u7, Ext \<mapsto> u8])"
proof -
  have pe: "plain ext_re" by (simp add: ext_re_def)
  have p1: "plain (Plus k)" "plain (One k)" "plain (lits w)" for k w
    by (simp_all add: plain_lits)
  show ?thesis
    unfolding FASTQ_RE_def
    apply (simp only: run_Cat_Bol run_Cat_Group[OF p1(1)] run_Cat_Group[OF p1(2)]
        run_Cat_plain[OF p1(3)] run_Group_Eol[OF pe])
    apply (simp only: simp_thms ex_simps bex_simps)
    apply (rule iffI)
     apply (elim bexE exE conjE)
     apply hypsubst
     apply (intro bexI conjI)
               apply (rule refl | assumption)+
    apply (elim bexE exE conjE)
    apply hypsubst
    apply (intro bexI exI conjI)
    apply (rule refl | assumption)+
    done
qed


lemma lower_us: "lower c = CHR ''_'' \<longleftrightarrow> c = CHR ''_''"
  by (auto simp: lower_def)

lemma lower_1: "lower c = CHR ''1'' \<longleftrightarrow> c = CHR ''1''"
  by (auto simp: lower_def)

lemma lower_2: "lower c = CHR ''2'' \<longleftrightarrow> c = CHR ''2''"
  by (auto simp: lower_def)

lemma lower_lit:
  "lower CHR ''_'' = CHR ''_''" "lower CHR ''1'' = CHR ''1''" "lower CHR ''2'' = CHR ''2''"
  "map lower ''_L'' = ''_l''" "map lower ''_R'' = ''_r''" "map lower ''_'' = ''_''"
  "map lower ''.'' = ''.''" "map lower ''f'' = ''f''" "map lower ''ast'' = ''ast''"
  "map lower ''q'' = ''q''" "map lower ''.gz'' = ''.gz''"
  by (simp_all add: lower_def)

lemma lang_lits_ci: "lang (lits w) = ci {map lower w}"
  by (simp add: lang_lits ci_def)

lemma lang_Cat_ci: "lang a = ci A \<Longrightarrow> lang b = ci B \<Longrightarrow> lang (Cat a b) = ci (catS A B)"
proof -
  assume a: "lang a = ci A" and b: "lang b = ci B"
  show ?thesis
  proof (rule set_eqI)
    fix w
    have "w \<in> lang (Cat a b) \<longleftrightarrow> (\<exists>u v. w = u @ v \<and> map lower u \<in> A \<and> map lower v \<in> B)"
      by (simp add: a b ci_def)
    also have "\<dots> \<longleftrightarrow> (\<exists>x y. map lower w = x @ y \<and> x \<in> A \<and> y \<in> B)"
    proof
      assume "\<exists>u v. w = u @ v \<and> map lower u \<in> A \<and> map lower v \<in> B"
      then obtain u v where "w = u @ v" "map lower u \<in> A" "map lower v \<in> B" by blast
      then have "map lower w = map lower u @ map lower v \<and> map lower u \<in> A \<and> map lower v \<in> B"
        by simp
      then show "\<exists>x y. map lower w = x @ y \<and> x \<in> A \<and> y \<in> B" by blast
    next
      assume "\<exists>x y. map lower w = x @ y \<and> x \<in> A \<and> y \<in> B"
      then obtain x y where xy: "map lower w = x @ y" "x \<in> A" "y \<in> B" by blast
      from xy(1) obtain u v where "w = u @ v" "x = map lower u" "y = map lower v"
        by (auto simp: map_eq_append_conv)
      with xy show "\<exists>u v. w = u @ v \<and> map lower u \<in> A \<and> map lower v \<in> B" by blast
    qed
    also have "\<dots> \<longleftrightarrow> w \<in> ci (catS A B)"
      by (simp add: ci_def catS_def)
    finally show "w \<in> lang (Cat a b) \<longleftrightarrow> w \<in> ci (catS A B)" .
  qed
qed

lemma lang_Opt_ci: "lang a = ci A \<Longrightarrow> lang (Opt a) = ci (insert [] A)"
  by (auto simp: ci_def)

lemma catS_simps:
  "catS {} B = {}"
  "catS (insert a A) B = (\<lambda>b. a @ b) ` B \<union> catS A B"
  by (auto simp: catS_def)

lemma lang_ext_re: "lang ext_re = ci exts"
proof -
  have "lang ext_re = ci (catS {''.''} (catS (catS {''f''} (catS (insert [] {''ast''}) {''q''})) (insert [] {''.gz''})))"
    unfolding ext_re_def
    by (intro lang_Cat_ci lang_Opt_ci) (simp_all only: lang_lits_ci lower_lit)
  also have "catS {''.''} (catS (catS {''f''} (catS (insert [] {''ast''}) {''q''})) (insert [] {''.gz''})) = exts"
    by (simp add: catS_simps exts_def insert_commute)
  finally show ?thesis .
qed

lemma lang_prefix: "lang (Plus Dot) = {u. u \<noteq> [] \<and> newline \<notin> set u}"
  by auto

lemma lang_sample: "lang (Plus (NotSet ''_'')) = {u. u \<noteq> [] \<and> CHR ''_'' \<notin> set u}"
  by (auto simp: lower_us lower_lit)

lemma lang_lane: "lang (Plus Digit) = {u. u \<noteq> [] \<and> set u \<subseteq> set ''0123456789''}"
  by (simp only: lang.simps cls_match.simps subset_iff Ball_def)

lemma lang_read: "lang (One (InSet ''12'')) = {''1'', ''2''}"
  by (auto simp: lower_1 lower_2 lower_lit)

lemma in_lang_us: "u \<in> lang (lits ''_'') \<longleftrightarrow> u = ''_''"
  by (cases u) (auto simp: lang_lits lower_us lower_lit)

lemma in_lang_L: "u \<in> lang (lits ''_L'') \<longleftrightarrow> map lower u = ''_l''"
  by (simp only: lang_lits lower_lit mem_Collect_eq)

lemma in_lang_R: "u \<in> lang (lits ''_R'') \<longleftrightarrow> map lower u = ''_r''"
  by (simp only: lang_lits lower_lit mem_Collect_eq)

lemma run_FASTQ_RE_shape:
  "(s', m) \<in> set (run f FASTQ_RE (f, Map.empty)) \<longleftrightarrow>
   (\<exists>pre sample digits rd ext f0.
      f = f0 @ s' \<and> lane_split_name f0 pre sample digits rd ext \<and>
      pre \<noteq> [] \<and> newline \<notin> set pre \<and> (s' = [] \<or> s' = [newline]) \<and>
      m = [Prefix \<mapsto> pre, Sample \<mapsto> sample, Lane \<mapsto> digits, Read \<mapsto> rd, Ext \<mapsto> ext])"
  (is "?L \<longleftrightarrow> ?R")
proof
  assume ?L
  then obtain u1 u2 u3 u4 u5 u6 u7 u8 where
    u: "u1 \<in> lang (Plus Dot)" "u2 \<in> lang (lits ''_'')" "u3 \<in> lang (Plus (NotSet ''_''))"
       "u4 \<in> lang (lits ''_L'')" "u5 \<in> lang (Plus Digit)" "u6 \<in> lang (lits ''_R'')"
       "u7 \<in> lang (One (InSet ''12''))" "u8 \<in> lang ext_re"
    and f: "f = u1 @ u2 @ u3 @ u4 @ u5 @ u6 @ u7 @ u8 @ s'"
    and t: "s' = [] \<or> s' = [newline]"
    and m: "m = [Prefix \<mapsto> u1, Sample \<mapsto> u3, Lane \<mapsto> u5, Read \<mapsto> u7, Ext \<mapsto> u8]"
    unfolding run_FASTQ_RE by (elim bexE conjE) (rule that; assumption)
  have u2: "u2 = ''_''" using u(2) by (simp only: in_lang_us)
  have "lane_split_name (u1 @ u2 @ u3 @ u4 @ u5 @ u6 @ u7 @ u8) u1 u3 u5 u7 u8"
    unfolding lane_split_name_def
  proof (intro conjI exI)
    show "u1 @ u2 @ u3 @ u4 @ u5 @ u6 @ u7 @ u8 = u1 @ ''_'' @ u3 @ u4 @ u5 @ u6 @ u7 @ u8"
      by (simp only: u2)
    show "map lower u4 = ''_l''" using u(4) by (simp only: in_lang_L)
    show "map lower u6 = ''_r''" using u(6) by (simp only: in_lang_R)
    show "u3 \<noteq> []" "CHR ''_'' \<notin> set u3" using u(3)[unfolded lang_sample] by simp_all
    show "u5 \<noteq> []" "set u5 \<subseteq> set ''0123456789''" using u(5)[unfolded lang_lane] by simp_all
    show "u7 = ''1'' \<or> u7 = ''2''" using u(7)[unfolded lang_read] by simp
    show "map lower u8 \<in> exts" using u(8)[unfolded lang_ext_re ci_def] by simp
  qed
  moreover have "u1 \<noteq> []" "newline \<notin> set u1" using u(1)[unfolded lang_prefix] by simp_all
  moreover have "f = (u1 @ u2 @ u3 @ u4 @ u5 @ u6 @ u7 @ u8) @ s'" using f by simp
  ultimately show ?R using t m by blast
next
  assume ?R
  then obtain pre sample digits rd ext f0 where
    f: "f = f0 @ s'" and sh: "lane_split_name f0 pre sample digits rd ext"
    and p: "pre \<noteq> []" "newline \<notin> set pre" and t: "s' = [] \<or> s' = [newline]"
    and m: "m = [Prefix \<mapsto> pre, Sample \<mapsto> sample, Lane \<mapsto> digits, Read \<mapsto> rd, Ext \<mapsto> ext]"
    by (elim exE conjE) (rule that; assumption)
  from sh obtain ul ur where
    f0: "f0 = pre @ ''_'' @ sample @ ul @ digits @ ur @ rd @ ext"
    and l: "map lower ul = ''_l''" and r: "map lower ur = ''_r''"
    and s: "sample \<noteq> []" "CHR ''_'' \<notin> set sample"
    and d: "digits \<noteq> []" "set digits \<subseteq> set ''0123456789''"
    and rd: "rd = ''1'' \<or> rd = ''2''" and e: "map lower ext \<in> exts"
    unfolding lane_split_name_def by (elim exE conjE) (rule that; assumption)
  have h1: "pre \<in> lang (Plus Dot)" unfolding lang_prefix using p by simp
  have h2: "''_'' \<in> lang (lits ''_'')" by (simp only: in_lang_us)
  have h3: "sample \<in> lang (Plus (NotSet ''_''))" unfolding lang_sample using s by simp
  have h4: "ul \<in> lang (lits ''_L'')" using l by (simp only: in_lang_L)
  have h5: "digits \<in> lang (Plus Digit)" unfolding lang_lane using d by simp
  have h6: "ur \<in> lang (lits ''_R'')" using r by (simp only: in_lang_R)
  have h7: "rd \<in> lang (One (InSet ''12''))" unfolding lang_read using rd by simp
  have h8: "ext \<in> lang ext_re" unfolding lang_ext_re ci_def using e by simp
  have hf: "f = pre @ ''_'' @ sample @ ul @ digits @ ur @ rd @ ext @ s'"
    using f f0 by simp
  show ?L
    unfolding run_FASTQ_RE
    by (rule bexI[OF _ h1], rule bexI[OF _ h2], rule bexI[OF _ h3], rule bexI[OF _ h4],
        rule bexI[OF _ h5], rule bexI[OF _ h6], rule bexI[OF _ h7], rule bexI[OF _ h8])
       (intro conjI hf t m)
qed

lemma re_match_Some_shape:
  assumes "re_match FASTQ_RE f = Some m"
  shows "\<exists>pre sample digits rd ext f0 s'.
      f = f0 @ s' \<and> lane_split_name f0 pre sample digits rd ext \<and>
      pre \<noteq> [] \<and> newline \<notin> set pre \<and> (s' = [] \<or> s' = [newline]) \<and>
      m = [Prefix \<mapsto> pre, Sample \<mapsto> sample, Lane \<mapsto> digits, Read \<mapsto> rd, Ext \<mapsto> ext]"
proof -
  from assms obtain s' where "(s', m) \<in> set (run f FASTQ_RE (f, Map.empty))"
    by (cases "run f FASTQ_RE (f, Map.empty)") (auto simp: re_match_def)
  then show ?thesis by (simp only: run_FASTQ_RE_shape) blast
qed



lemma split_last_unique:
  assumes "xs @ a # ys = xs' @ a' # ys'"
    and "\<forall>y\<in>set ys. P y" "\<not> P a" "\<forall>y\<in>set ys'. P y" "\<not> P a'"
  shows "xs = xs' \<and> a = a' \<and> ys = ys'"
proof -
  from assms(1) consider us where "xs = xs' @ us" "us @ a # ys = a' # ys'"
    | us where "xs @ us = xs'" "a # ys = us @ a' # ys'"
    by (auto simp: append_eq_append_conv2)
  then show ?thesis
  proof cases
    case 1
    show ?thesis
    proof (cases us)
      case Nil
      with 1 show ?thesis by simp
    next
      case (Cons u us')
      with 1 have "ys' = us' @ a # ys" by simp
      then have "a \<in> set ys'" by simp
      with assms(3,4) show ?thesis by blast
    qed
  next
    case 2
    show ?thesis
    proof (cases us)
      case Nil
      with 2 show ?thesis by simp
    next
      case (Cons u us')
      with 2 have "ys = us' @ a' # ys'" by simp
      then have "a' \<in> set ys" by simp
      with assms(2,5) show ?thesis by blast
    qed
  qed
qed


lemma lower_nl: "lower c = newline \<longleftrightarrow> c = newline"
  by (auto simp: lower_def newline_def)


lemma exts_chars:
  "E \<in> exts \<Longrightarrow> E \<noteq> [] \<and> CHR ''1'' \<notin> set E \<and> CHR ''2'' \<notin> set E \<and> newline \<notin> set E \<and> CHR ''_'' \<notin> set E"
  unfolding exts_def newline_def by (elim insertE emptyE) simp_all

lemma ext_chars:
  assumes "map lower ext \<in> exts"
  shows "ext \<noteq> []" "CHR ''1'' \<notin> set ext" "CHR ''2'' \<notin> set ext" "newline \<notin> set ext"
    "CHR ''_'' \<notin> set ext"
proof -
  note E = exts_chars[OF assms]
  show "ext \<noteq> []" using E by auto
  show "CHR ''1'' \<notin> set ext"
  proof
    assume "CHR ''1'' \<in> set ext"
    then have "lower CHR ''1'' \<in> set (map lower ext)" by (simp only: set_map) (rule imageI)
    with E show False by (simp add: lower_lit)
  qed
  show "CHR ''2'' \<notin> set ext"
  proof
    assume "CHR ''2'' \<in> set ext"
    then have "lower CHR ''2'' \<in> set (map lower ext)" by (simp only: set_map) (rule imageI)
    with E show False by (simp add: lower_lit)
  qed
  show "newline \<notin> set ext"
  proof
    assume "newline \<in> set ext"
    then have "lower newline \<in> set (map lower ext)" by (simp only: set_map) (rule imageI)
    moreover have "lower newline = newline" by (simp add: lower_nl)
    ultimately show False using E by simp
  qed
  show "CHR ''_'' \<notin> set ext"
  proof
    assume "CHR ''_'' \<in> set ext"
    then have "lower CHR ''_'' \<in> set (map lower ext)" by (simp only: set_map) (rule imageI)
    with E show False by (simp add: lower_lit)
  qed
qed

lemma two_letters:
  assumes "map lower w = [a, b]"
  obtains x y where "w = [x, y]" "lower x = a" "lower y = b"
proof -
  from assms obtain x w1 where w: "w = x # w1" and x: "lower x = a" and w1: "map lower w1 = [b]"
    by (cases w) simp_all
  from w1 obtain y w2 where w1': "w1 = y # w2" and y: "lower y = b" and w2: "map lower w2 = []"
    by (cases w1) simp_all
  from w2 have "w2 = []" by simp
  with w w1' have "w = [x, y]" by simp
  then show ?thesis using x y by (rule that)
qed

lemma lane_split_parts:
  assumes "lane_split_name f pre sample digits rd ext"
  obtains l r c where
    "f = (((pre @ CHR ''_'' # sample) @ [CHR ''_'']) @ l # digits @ [CHR ''_'', r]) @ c # ext"
    "lower l = CHR ''l''" "lower r = CHR ''r''" "rd = [c]" "c = CHR ''1'' \<or> c = CHR ''2''"
    "sample \<noteq> []" "CHR ''_'' \<notin> set sample" "digits \<noteq> []" "set digits \<subseteq> set ''0123456789''"
    "map lower ext \<in> exts"
proof -
  from assms obtain ul ur where
    f: "f = pre @ ''_'' @ sample @ ul @ digits @ ur @ rd @ ext"
    and l: "map lower ul = ''_l''" and r: "map lower ur = ''_r''"
    and s: "sample \<noteq> []" "CHR ''_'' \<notin> set sample"
    and d: "digits \<noteq> []" "set digits \<subseteq> set ''0123456789''"
    and rd: "rd = ''1'' \<or> rd = ''2''" and e: "map lower ext \<in> exts"
    unfolding lane_split_name_def by (elim exE conjE) (rule that; assumption)
  from l obtain u1 l' where ul: "ul = [u1, l']" "lower u1 = CHR ''_''" "lower l' = CHR ''l''"
    by (rule two_letters)
  from r obtain u2 r' where ur: "ur = [u2, r']" "lower u2 = CHR ''_''" "lower r' = CHR ''r''"
    by (rule two_letters)
  have u: "u1 = CHR ''_''" "u2 = CHR ''_''" using ul(2) ur(2) by (simp_all only: lower_us)
  from rd obtain c where c: "rd = [c]" "c = CHR ''1'' \<or> c = CHR ''2''" by auto
  have "f = (((pre @ CHR ''_'' # sample) @ [CHR ''_'']) @ l' # digits @ [CHR ''_'', r']) @ c # ext"
    using f ul(1) ur(1) u c(1) by simp
  then show ?thesis using ul(3) ur(3) c s d e by (rule that)
qed


section \<open>What the matcher accepts\<close>







text \<open>
  Without \<^verbatim>\<open>re.MULTILINE\<close> the \<^verbatim>\<open>$\<close> of the pattern also matches before a newline that
  ends the name.
\<close>

lemma FASTQ_RE_trailing_newline_evaluated:
  "map_option (\<lambda>m. (group m Sample, group m Lane, group m Read, group m Ext))
     (re_match FASTQ_RE (''x_A_L1_R1.fq'' @ [newline])) = Some (''A'', ''1'', ''1'', ''.fq'')"
  by (simp add: ev)

section \<open>Groups\<close>

lemma map_of_add_entry:
  "map_of (add_entry k e g) k' =
     (if k' = k then Some ((case map_of g k of None \<Rightarrow> [] | Some es \<Rightarrow> es) @ [e]) else map_of g k')"
proof (induction g arbitrary: k')
  case Nil
  then show ?case by simp
next
  case (Cons a g)
  obtain k0 es where a: "a = (k0, es)" by (cases a)
  show ?case unfolding a by (simp add: Cons.IH)
qed

lemma keys_add_entry: "fst ` set (add_entry k e g) = insert k (fst ` set g)"
proof (induction g)
  case Nil
  then show ?case by simp
next
  case (Cons a g)
  obtain k' es where a: "a = (k', es)" by (cases a)
  show ?case
  proof (cases "k' = k")
    case True
    then show ?thesis unfolding a by (simp add: insert_absorb)
  next
    case False
    then show ?thesis unfolding a by (simp add: Cons.IH insert_commute)
  qed
qed

lemma distinct_add_entry: "distinct (map fst g) \<Longrightarrow> distinct (map fst (add_entry k e g))"
proof (induction g)
  case Nil
  then show ?case by simp
next
  case (Cons a g)
  obtain k' es where a: "a = (k', es)" by (cases a)
  show ?case
  proof (cases "k' = k")
    case True
    with Cons.prems a show ?thesis by simp
  next
    case False
    have "k' \<notin> fst ` set (add_entry k e g)"
      using Cons.prems a False by (simp add: keys_add_entry)
    moreover have "distinct (map fst (add_entry k e g))"
      using Cons.IH Cons.prems by simp
    ultimately show ?thesis using a False by simp
  qed
qed

lemma entries_of_Cons:
  "entries_of k ((sample, read, ext, e) # ems) =
     (if (sample, read, ext) = k then e # entries_of k ems else entries_of k ems)"
  by (simp add: entries_of_def)

lemma foldl_add_entry_lookup:
  "map_of (foldl (\<lambda>g (sample, read, ext, e). add_entry (sample, read, ext) e g) g ems) k =
     (case map_of g k of
        None \<Rightarrow> (if entries_of k ems = [] then None else Some (entries_of k ems))
      | Some es \<Rightarrow> Some (es @ entries_of k ems))"
proof (induction ems arbitrary: g)
  case Nil
  then show ?case by (simp add: entries_of_def split: option.splits)
next
  case (Cons x ems)
  obtain sample read ext e where x: "x = (sample, read, ext, e)" by (cases x) auto
  show ?case
    unfolding x foldl_Cons prod.case Cons.IH
    by (simp add: map_of_add_entry entries_of_Cons split: option.splits)
qed

lemma foldl_add_entry_distinct:
  "distinct (map fst g) \<Longrightarrow>
   distinct (map fst (foldl (\<lambda>g (sample, read, ext, e). add_entry (sample, read, ext) e g) g ems))"
proof (induction ems arbitrary: g)
  case Nil
  then show ?case by simp
next
  case (Cons x ems)
  obtain sample read ext e where x: "x = (sample, read, ext, e)" by (cases x) auto
  have "distinct (map fst (add_entry (sample, read, ext) e g))"
    using Cons.prems by (rule distinct_add_entry)
  then show ?case unfolding x foldl_Cons prod.case by (rule Cons.IH)
qed

lemma build_groups_iff:
  "(k, es) \<in> set (build_groups ems) \<longleftrightarrow> es = entries_of k ems \<and> es \<noteq> []"
proof -
  have d: "distinct (map fst (build_groups ems))"
    unfolding build_groups_def by (rule foldl_add_entry_distinct) simp
  have "(k, es) \<in> set (build_groups ems) \<longleftrightarrow> map_of (build_groups ems) k = Some es"
    using d by simp
  also have "\<dots> \<longleftrightarrow> es = entries_of k ems \<and> es \<noteq> []"
    unfolding build_groups_def foldl_add_entry_lookup by auto
  finally show ?thesis .
qed

lemma in_entries_of:
  "e \<in> set (entries_of (sample, read, ext) ems) \<longleftrightarrow> (sample, read, ext, e) \<in> set ems"
proof
  assume "e \<in> set (entries_of (sample, read, ext) ems)"
  then obtain x where x: "x \<in> set ems"
    and k: "(case x of (sample', read', ext', e') \<Rightarrow> (sample', read', ext') = (sample, read, ext))"
    and e: "e = (case x of (sample', read', ext', e') \<Rightarrow> e')"
    unfolding entries_of_def by auto
  obtain s1 r1 x1 e1 where "x = (s1, r1, x1, e1)" by (cases x) auto
  with x k e show "(sample, read, ext, e) \<in> set ems" by simp
next
  assume h: "(sample, read, ext, e) \<in> set ems"
  have "e = (\<lambda>(sample, read, ext, e). e) (sample, read, ext, e)" by simp
  moreover have "(sample, read, ext, e) \<in> set (filter (\<lambda>(sample', read', ext', e). (sample', read', ext') = (sample, read, ext)) ems)"
    using h by simp
  ultimately show "e \<in> set (entries_of (sample, read, ext) ems)"
    unfolding entries_of_def set_map by (rule image_eqI)
qed

section \<open>Emitted entries and destinations\<close>

lemma emit_shape:
  assumes "(sample, rd, ext, e) \<in> set (emit d f)"
  shows "\<exists>pre digits f0 t. f = f0 @ t \<and> lane_split_name f0 pre sample digits rd ext \<and>
           pre \<noteq> [] \<and> (t = [] \<or> t = [newline]) \<and>
           e = \<lparr>path = joinpath d f, lane = lane_int digits\<rparr>"
proof -
  from assms obtain m where m: "re_match FASTQ_RE f = Some m"
    and x: "(sample, rd, ext, e) =
        (group m Sample, group m Read, group m Ext,
         \<lparr>path = joinpath d f, lane = lane_int (group m Lane)\<rparr>)"
    by (cases "re_match FASTQ_RE f") (auto simp: emit_def)
  from re_match_Some_shape[OF m] obtain pre sample' digits rd' ext' f0 t where
    f: "f = f0 @ t" and sh: "lane_split_name f0 pre sample' digits rd' ext'"
    and p: "pre \<noteq> []" and t: "t = [] \<or> t = [newline]"
    and mm: "m = [Prefix \<mapsto> pre, Sample \<mapsto> sample', Lane \<mapsto> digits, Read \<mapsto> rd', Ext \<mapsto> ext']"
    by (elim exE conjE) (rule that; assumption)
  have "sample = sample'" "rd = rd'" "ext = ext'"
    "e = \<lparr>path = joinpath d f, lane = lane_int digits\<rparr>"
    using x by (simp_all add: mm group_def)
  with f sh p t show ?thesis by blast
qed

lemma find_fastqs_emit:
  "x \<in> set (find_fastqs walk exclude) \<Longrightarrow> \<exists>d f. x \<in> set (emit d f)"
  by (auto simp: find_fastqs_def split: if_splits)

lemma lane_split_underscores:
  assumes "lane_split_name f pre sample digits rd ext"
  obtains y z where "f = y @ CHR ''_'' # z" "CHR ''_'' \<in> set y" "CHR ''_'' \<notin> set z"
    "newline \<notin> set z"
proof -
  from assms obtain l r c where
    f: "f = (((pre @ CHR ''_'' # sample) @ [CHR ''_'']) @ l # digits @ [CHR ''_'', r]) @ c # ext"
    and r: "lower r = CHR ''r''" and c: "c = CHR ''1'' \<or> c = CHR ''2''"
    and e: "map lower ext \<in> exts"
    by (rule lane_split_parts)
  let ?y = "((pre @ CHR ''_'' # sample) @ [CHR ''_'']) @ l # digits"
  let ?z = "r # c # ext"
  have "r \<noteq> CHR ''_''" using r by (auto simp: lower_lit)
  moreover have "r \<noteq> newline" using r lower_nl[of r] by (auto simp: newline_def)
  moreover have "c \<noteq> CHR ''_''" "c \<noteq> newline" using c by (auto simp: newline_def)
  ultimately have "CHR ''_'' \<notin> set ?z" "newline \<notin> set ?z"
    using ext_chars(4,5)[OF e] by simp_all
  moreover have "f = ?y @ CHR ''_'' # ?z" using f by simp
  moreover have "CHR ''_'' \<in> set ?y" by simp
  ultimately show ?thesis by (rule that[rotated 2])
qed

lemma underscore_not_dots: "CHR ''_'' \<in> set w \<Longrightarrow> w \<noteq> ''.'' \<and> w \<noteq> ''..''"
  by auto

lemma emitted_path:
  assumes "(sample, rd, ext, e) \<in> set (emit d f)"
  shows "path e = d @ [f]"
proof -
  from emit_shape[OF assms] obtain pre digits f0 t where
    f: "f = f0 @ t" and sh: "lane_split_name f0 pre sample digits rd ext"
    and e: "e = \<lparr>path = joinpath d f, lane = lane_int digits\<rparr>"
    by blast
  from sh obtain y z where "f0 = y @ CHR ''_'' # z" by (rule lane_split_underscores)
  with f have "CHR ''_'' \<in> set f" by simp
  then have "f \<noteq> ''.''" "f \<noteq> ''..''" by auto
  with e show ?thesis by (simp add: joinpath_def)
qed

lemma destination_last:
  "destination outdir (sample, rd, ext) = joinpath outdir sample @ [sample @ ''_R'' @ rd @ ext]"
proof -
  have "CHR ''_'' \<in> set (sample @ ''_R'' @ rd @ ext)" by simp
  then have "sample @ ''_R'' @ rd @ ext \<noteq> ''.'' \<and> sample @ ''_R'' @ rd @ ext \<noteq> ''..''"
    by (rule underscore_not_dots)
  then show ?thesis unfolding destination_def prod.case by (simp only: joinpath_def[of _ "sample @ ''_R'' @ rd @ ext"] if_False)
qed

lemma emitted_name_not_destination:
  assumes a: "(s1, r1, x1, e1) \<in> set (emit d1 f1)" and b: "(s2, r2, x2, e2) \<in> set (emit d2 f2)"
  shows "f1 \<noteq> s2 @ ''_R'' @ r2 @ x2"
proof
  assume eq: "f1 = s2 @ ''_R'' @ r2 @ x2"
  from emit_shape[OF a] obtain pre digits f0 t where
    f: "f1 = f0 @ t" and sh: "lane_split_name f0 pre s1 digits r1 x1"
    and t: "t = [] \<or> t = [newline]"
    by blast
  from sh obtain y z where yz: "f0 = y @ CHR ''_'' # z" "CHR ''_'' \<in> set y" "CHR ''_'' \<notin> set z"
    by (rule lane_split_underscores)
  from emit_shape[OF b] obtain pre2 digits2 g0 t2 where
    sh2: "lane_split_name g0 pre2 s2 digits2 r2 x2"
    by blast
  from sh2 obtain l r c where
    s2: "CHR ''_'' \<notin> set s2" and r2: "r2 = [c]" "c = CHR ''1'' \<or> c = CHR ''2''"
    and x2: "map lower x2 \<in> exts"
    by (rule lane_split_parts)
  let ?P = "\<lambda>c. c \<noteq> CHR ''_''"
  have nl: "?P newline" by (simp add: newline_def)
  have zt: "\<forall>c\<in>set (z @ t). ?P c" using yz(3) t nl by auto
  have "?P c" using r2(2) by auto
  then have rest: "\<forall>c\<in>set (CHR ''R'' # r2 @ x2). ?P c"
    using r2(1) ext_chars(5)[OF x2] by auto
  have "y @ CHR ''_'' # (z @ t) = s2 @ CHR ''_'' # (CHR ''R'' # r2 @ x2)"
    using eq f yz(1) by simp
  then have "y = s2 \<and> CHR ''_'' = CHR ''_'' \<and> z @ t = CHR ''R'' # r2 @ x2"
    using zt rest by (intro split_last_unique[where P="?P"]) simp_all
  with yz(2) s2 show False by simp
qed

lemma group_dest_not_source:
  assumes g: "(k, es) \<in> set (build_groups (find_fastqs walk exclude))" and e: "e \<in> set es"
  shows "path e \<noteq> destination outdir k"
proof -
  obtain sample rd ext where k: "k = (sample, rd, ext)" by (cases k) auto
  from g have "es = entries_of k (find_fastqs walk exclude)" by (simp add: build_groups_iff)
  with e k have "(sample, rd, ext, e) \<in> set (find_fastqs walk exclude)"
    by (simp add: in_entries_of)
  then obtain d f where em: "(sample, rd, ext, e) \<in> set (emit d f)"
    using find_fastqs_emit by blast
  have "f \<noteq> sample @ ''_R'' @ rd @ ext" by (rule emitted_name_not_destination[OF em em])
  then show ?thesis
    unfolding k destination_last emitted_path[OF em] by simp
qed

section \<open>Effects of the consolidator\<close>

lemma mkdir_parents_files:
  assumes "mkdir_parents p s = Inr s1"
  shows "s1 q = Some (File b) \<longleftrightarrow> s q = Some (File b)"
  using mkdir_parents_frame[OF assms, of q] by (cases "s1 q = s q") auto

lemma mkdir_parents_file_bytes:
  assumes "mkdir_parents p s = Inr s1"
  shows "file_bytes s1 q = file_bytes s q"
proof (cases "s1 q = s q")
  case True
  then show ?thesis by (simp add: file_bytes_def)
next
  case False
  from mkdir_parents_frame[OF assms False] show ?thesis by (simp add: file_bytes_def)
qed

lemma mkdir_parents_keeps:
  assumes "mkdir_parents p s = Inr s1" and "s q \<noteq> None"
  shows "s1 q = s q"
  using mkdir_parents_frame[OF assms(1), of q] assms(2) by blast

lemma mkdir_parents_not_below:
  assumes "mkdir_parents p s = Inr s1" and "\<not> prefix q p"
  shows "s1 q = s q"
  using mkdir_parents_frame[OF assms(1), of q] assms(2) by blast

lemma mkdir_parents_is_dir:
  "mkdir_parents p s = Inr s1 \<Longrightarrow> is_dir s1 p"
proof (induction p s arbitrary: s1 rule: mkdir_parents.induct)
  case (1 p s)
  show ?case
  proof (cases "p = []")
    case True
    then show ?thesis by (simp add: is_dir_def)
  next
    case False
    show ?thesis
    proof (cases "s p")
      case None
      have "mkdir_parents p s =
              (case mkdir_parents (butlast p) s of Inl e \<Rightarrow> Inl NotADirectoryError | Inr s' \<Rightarrow> Inr (s'(p \<mapsto> Dir)))"
        using False None by (subst mkdir_parents.simps) simp
      with "1.prems" obtain s' where "s1 = s'(p \<mapsto> Dir)"
        by (cases "mkdir_parents (butlast p) s") auto
      then show ?thesis by (simp add: is_dir_def)
    next
      case (Some n)
      have "mkdir_parents p s = (case n of Dir \<Rightarrow> Inr s | File b \<Rightarrow> Inl FileExistsError)"
        using False Some by (subst mkdir_parents.simps) simp
      with "1.prems" Some show ?thesis by (cases n) (simp_all add: is_dir_def)
    qed
  qed
qed

lemma not_prefix_parent: "d \<noteq> [] \<Longrightarrow> \<not> prefix d (parent d)"
proof
  assume d: "d \<noteq> []" and p: "prefix d (parent d)"
  from p have "length d \<le> length (butlast d)" unfolding parent_def by (rule prefix_length_le)
  then have "length d \<le> length d - 1" by (simp only: length_butlast)
  moreover have "0 < length d" using d by simp
  ultimately show False by arith
qed

lemma copy_all_result:
  "copy_all es acc s = Inr b \<Longrightarrow>
     b = acc @ concat (map (\<lambda>e. file_bytes s (path e)) es) \<and>
     (\<forall>e\<in>set es. \<exists>x. s (path e) = Some (File x))"
proof (induction es arbitrary: acc)
  case Nil
  then show ?case by simp
next
  case (Cons e es)
  from Cons.prems obtain x where r: "read_file (path e) s = Inr x"
    and c: "copy_all es (acc @ x) s = Inr b"
    by (cases "read_file (path e) s") auto
  from r have x: "s (path e) = Some (File x)"
    by (auto simp: read_file_def split: option.splits node.splits)
  then have "file_bytes s (path e) = x" by (simp add: file_bytes_def)
  with Cons.IH[OF c] x show ?case by simp
qed

lemma unlink_all_result:
  "unlink_all es s = Inr s' \<Longrightarrow>
     (\<forall>e\<in>set es. s' (path e) = None) \<and> (\<forall>q. q \<notin> path ` set es \<longrightarrow> s' q = s q)"
proof (induction es arbitrary: s)
  case Nil
  then show ?case by simp
next
  case (Cons e es)
  from Cons.prems obtain s1 where u: "unlink (path e) s = Inr s1"
    and r: "unlink_all es s1 = Inr s'"
    by (cases "unlink (path e) s") auto
  from u have s1: "s1 = s(path e := None)"
    by (auto simp: unlink_def split: option.splits node.splits)
  note IH = Cons.IH[OF r]
  have "s' (path e) = None"
  proof (cases "path e \<in> path ` set es")
    case True
    with IH show ?thesis by auto
  next
    case False
    with IH have "s' (path e) = s1 (path e)" by blast
    with s1 show ?thesis by simp
  qed
  moreover have "\<forall>q. q \<notin> path ` set (e # es) \<longrightarrow> s' q = s q"
    using IH s1 by auto
  ultimately show ?case using IH by auto
qed

lemma concatenate_result:
  assumes "concatenate es d s = Inr s2" and nd: "d \<notin> path ` set es"
  shows "s2 d = Some (File (concat (map (\<lambda>e. file_bytes s (path e)) (sort_key lane es))))"
    and "\<forall>e\<in>set es. \<exists>x. s (path e) = Some (File x)"
proof -
  from assms(1) obtain s1 s1' b where m: "mkdir_parents (parent d) s = Inr s1"
    and o: "open_wb d s1 = Inr s1'" and c: "copy_all (sort_key lane es) [] s1' = Inr b"
    and s2: "s2 = close_written d b s1'"
    by (auto simp: concatenate_def split: sum.splits)
  from o have s1': "s1' = s1(d \<mapsto> File [])"
    by (auto simp: open_wb_def split: option.splits node.splits if_splits)
  have same: "s1' (path e) = s1 (path e)" if "e \<in> set es" for e
    using that nd s1' by auto
  have fb: "file_bytes s1' (path e) = file_bytes s (path e)" if "e \<in> set es" for e
    using same[OF that] mkdir_parents_file_bytes[OF m, of "path e"] by (simp add: file_bytes_def)
  from copy_all_result[OF c]
  have b: "b = concat (map (\<lambda>e. file_bytes s1' (path e)) (sort_key lane es))"
    and ex: "\<forall>e\<in>set (sort_key lane es). \<exists>x. s1' (path e) = Some (File x)"
    by simp_all
  have "map (\<lambda>e. file_bytes s1' (path e)) (sort_key lane es) =
        map (\<lambda>e. file_bytes s (path e)) (sort_key lane es)"
    by (rule map_cong) (simp_all add: fb)
  with b s2 show "s2 d = Some (File (concat (map (\<lambda>e. file_bytes s (path e)) (sort_key lane es))))"
    by (simp add: close_written_def)
  show "\<forall>e\<in>set es. \<exists>x. s (path e) = Some (File x)"
  proof
    fix e assume e: "e \<in> set es"
    with ex obtain x where "s1' (path e) = Some (File x)" by auto
    with same[OF e] have "s1 (path e) = Some (File x)" by simp
    with mkdir_parents_files[OF m] show "\<exists>x. s (path e) = Some (File x)" by blast
  qed
qed

lemma relocate_multi_unfold:
  "length es \<noteq> 1 \<Longrightarrow> relocate es d s =
     (case mkdir_parents (parent d) s of
        Inl err \<Rightarrow> Inl err
      | Inr s1 \<Rightarrow> (case concatenate es d s1 of Inl err \<Rightarrow> Inl err | Inr s2 \<Rightarrow> unlink_all es s2))"
proof (cases es)
  case Nil
  then show ?thesis by (simp add: relocate_def split: sum.splits)
next
  case (Cons a as)
  assume "length es \<noteq> 1"
  with Cons obtain b bs where "as = b # bs" by (cases as) auto
  with Cons show ?thesis by (simp add: relocate_def split: sum.splits)
qed

lemma relocate_multi:
  assumes "length es \<noteq> 1" and r: "relocate es d s = Inr s'" and nd: "d \<notin> path ` set es"
  shows "s' d = Some (File (concat (map (\<lambda>e. file_bytes s (path e)) (sort_key lane es))))"
    and "\<forall>e\<in>set es. s' (path e) = None"
    and "\<forall>e\<in>set es. \<exists>x. s (path e) = Some (File x)"
proof -
  from r obtain s1 s2 where m: "mkdir_parents (parent d) s = Inr s1"
    and c: "concatenate es d s1 = Inr s2" and u: "unlink_all es s2 = Inr s'"
    unfolding relocate_multi_unfold[OF assms(1)] by (auto split: sum.splits)
  note U = unlink_all_result[OF u]
  from U nd have "s' d = s2 d" by blast
  also have "\<dots> = Some (File (concat (map (\<lambda>e. file_bytes s1 (path e)) (sort_key lane es))))"
    by (rule concatenate_result(1)[OF c nd])
  also have "map (\<lambda>e. file_bytes s1 (path e)) (sort_key lane es) =
             map (\<lambda>e. file_bytes s (path e)) (sort_key lane es)"
    by (simp add: mkdir_parents_file_bytes[OF m])
  finally show "s' d = Some (File (concat (map (\<lambda>e. file_bytes s (path e)) (sort_key lane es))))" .
  show "\<forall>e\<in>set es. s' (path e) = None" using U by blast
  show "\<forall>e\<in>set es. \<exists>x. s (path e) = Some (File x)"
    using concatenate_result(2)[OF c nd] mkdir_parents_files[OF m] by blast
qed

section \<open>Groups of several lanes\<close>

lemmas ev_fs = concatenate_def open_wb_def read_file_def close_written_def unlink_def
  not_dir_error_def file_bytes_def

text \<open>
  C4: for every group of more than one entry that the grouper forms from a scan, when
  its consolidation succeeds (run as \<open>main\<close> runs it, with the output directory in
  place) the destination file holds the bytes of the source files, as they were before,
  one after the other with nothing in between, in the order of the stable sort by lane
  number: the lanes ascend, the sorted list is a rearrangement of the group's entries,
  entries of equal lane keep their mutual order, and the group's entries are in the
  order in which the scan emitted them.
\<close>

theorem concatenation_in_lane_order:
  assumes "(k, es) \<in> set (build_groups (find_fastqs walk exclude))" and "1 < length es"
    and "is_dir s outdir" and "relocate es (destination outdir k) s = Inr s'"
  shows "s' (destination outdir k) =
           Some (File (concat (map (\<lambda>e. file_bytes s (path e)) (sort_key lane es)))) \<and>
         sorted (map lane (sort_key lane es)) \<and> mset (sort_key lane es) = mset es \<and>
         (\<forall>n. filter (\<lambda>e. lane e = n) (sort_key lane es) = filter (\<lambda>e. lane e = n) es) \<and>
         es = entries_of k (find_fastqs walk exclude)"
proof -
  have nd: "destination outdir k \<notin> path ` set es"
  proof
    assume "destination outdir k \<in> path ` set es"
    then obtain e where "e \<in> set es" "path e = destination outdir k" by auto
    with group_dest_not_source[OF assms(1), of e outdir] show False by simp
  qed
  have "length es \<noteq> 1" using assms(2) by simp
  from relocate_multi(1)[OF this assms(4) nd]
  have "s' (destination outdir k) =
           Some (File (concat (map (\<lambda>e. file_bytes s (path e)) (sort_key lane es))))" .
  moreover have "es = entries_of k (find_fastqs walk exclude)"
    using assms(1) by (simp add: build_groups_iff)
  ultimately show ?thesis by (simp add: sort_key_stable)
qed

text \<open>
  C2: for every such group, after a successful consolidation none of the source paths
  exists any more (each was a regular file before), and the size of the destination file
  is the sum of the sizes the source files had.
\<close>

theorem multi_entry_sources_removed:
  assumes "(k, es) \<in> set (build_groups (find_fastqs walk exclude))" and "1 < length es"
    and "is_dir s outdir" and "relocate es (destination outdir k) s = Inr s'"
  shows "(\<forall>e\<in>set es. s' (path e) = None) \<and>
         (\<forall>e\<in>set es. \<exists>x. s (path e) = Some (File x)) \<and>
         (\<exists>b. s' (destination outdir k) = Some (File b) \<and>
              length b = (\<Sum>e\<leftarrow>es. length (file_bytes s (path e))))"
proof -
  have nd: "destination outdir k \<notin> path ` set es"
  proof
    assume "destination outdir k \<in> path ` set es"
    then obtain e where "e \<in> set es" "path e = destination outdir k" by auto
    with group_dest_not_source[OF assms(1), of e outdir] show False by simp
  qed
  have l: "length es \<noteq> 1" using assms(2) by simp
  note R = relocate_multi[OF l assms(4) nd]
  let ?g = "\<lambda>e. length (file_bytes s (path e))"
  have "length (concat (map (\<lambda>e. file_bytes s (path e)) (sort_key lane es))) =
        sum_list (map ?g (sort_key lane es))"
    by (simp add: length_concat comp_def)
  also have "\<dots> = sum_mset (image_mset ?g (mset (sort_key lane es)))"
    by (simp only: sum_mset_sum_list[symmetric] mset_map)
  also have "\<dots> = sum_mset (image_mset ?g (mset es))" by simp
  also have "\<dots> = sum_list (map ?g es)"
    by (simp only: sum_mset_sum_list[symmetric] mset_map)
  finally have "length (concat (map (\<lambda>e. file_bytes s (path e)) (sort_key lane es))) =
        sum_list (map ?g es)" .
  with R show ?thesis by blast
qed

end
